theory Spec2Isabelle
  imports Complex_Main "HOL-Library.Signed_Division"
begin

section \<open>The step sequencer of the music loop tool\<close>

text \<open>
  A shallow embedding of \<^verbatim>\<open>js/sequencer.js\<close> (class \<^verbatim>\<open>Sequencer\<close>) and of the part of
  \<^verbatim>\<open>js/audio.js\<close> (class \<^verbatim>\<open>AudioEngine\<close>) that the sequencer calls. Objects are records,
  every method takes the object and returns the updated one, and the calls a method makes
  to its collaborators (the instrument trigger, the document-wide step event) are appended
  to a trace held in the sequencer record.

  Row and step arguments are integers (the caller reads them with \<^verbatim>\<open>parseInt\<close>, the
  source documents them as indices); grid cells are booleans; a Tone.js time is a real
  number that the code only passes on.
\<close>

subsection \<open>Values\<close>

type_synonym time = real

text \<open>A JavaScript number as far as \<^verbatim>\<open>setTempo\<close> is concerned: finite, or one of the
  three non-finite values.\<close>

datatype js_number = Num real | NaN | PosInfinity | NegInfinity

definition positive_finite :: "js_number \<Rightarrow> bool" where
  "positive_finite b = (case b of Num x \<Rightarrow> 0 < x | _ \<Rightarrow> False)"

text \<open>The argument of \<^verbatim>\<open>setPattern\<close>: any value. What the code looks at is whether it is
  an array, its length, and the same for each of its elements.\<close>

datatype row_value = RowArray "bool list" | RowNotArray

datatype pattern_value = PatternArray "row_value list" | PatternNotArray

text \<open>What the sequencer does to the outside: \<^verbatim>\<open>audioEngine.scheduleNote(row, time)\<close> and
  the \<^verbatim>\<open>sequencer:step\<close> event with its \<^verbatim>\<open>detail.step\<close>.\<close>

datatype event = ScheduleNote int time | StepEvent int

subsection \<open>AudioEngine\<close>

text \<open>\<open>transport_started\<close> and \<open>transport_bpm\<close> stand for \<^verbatim>\<open>Tone.Transport\<close>'s state and
  \<^verbatim>\<open>Tone.Transport.bpm.value\<close>; \<open>players\<close> lists the instrument indices that have a
  player; \<open>player_starts\<close> records the \<^verbatim>\<open>player.start(time)\<close> calls.\<close>

record audio_engine =
  initialized :: bool
  ae_isPlaying :: bool
  tempo :: js_number
  players :: "int list"
  transport_started :: bool
  transport_bpm :: js_number
  player_starts :: "(int \<times> time) list"

text \<open>\<^verbatim>\<open>new AudioEngine()\<close>, with Tone.js's transport stopped at its default 120 BPM.\<close>

definition new_AudioEngine :: audio_engine where
  "new_AudioEngine =
     \<lparr>initialized = False, ae_isPlaying = False, tempo = Num 120, players = [],
      transport_started = False, transport_bpm = Num 120, player_starts = []\<rparr>"

text \<open>\<^verbatim>\<open>async init()\<close>: the argument says where the awaited work failed, if it did
  (\<^verbatim>\<open>Tone.start()\<close>, or \<^verbatim>\<open>loadSamples()\<close> after it had created that many players). The
  result is the promise's value and the engine; \<open>initialized\<close> is set on success only.\<close>

datatype init_failure = ToneStartFailed | LoadSamplesFailed nat

definition AudioEngine_init :: "init_failure option \<Rightarrow> audio_engine \<Rightarrow> bool \<times> audio_engine" where
  "AudioEngine_init failure ae =
     (case failure of
        Some ToneStartFailed \<Rightarrow> (False, ae)
      | Some (LoadSamplesFailed n) \<Rightarrow>
          (False, ae\<lparr>transport_bpm := tempo ae, players := map int [0..<n]\<rparr>)
      | None \<Rightarrow> (True, ae\<lparr>transport_bpm := tempo ae, players := [0..7], initialized := True\<rparr>))"

definition AudioEngine_scheduleNote :: "int \<Rightarrow> time \<Rightarrow> audio_engine \<Rightarrow> audio_engine" where
  "AudioEngine_scheduleNote instrumentIndex t ae =
     (if \<not> initialized ae then ae
      else if instrumentIndex \<in> set (players ae)
           then ae\<lparr>player_starts := player_starts ae @ [(instrumentIndex, t)]\<rparr>
           else ae)"

definition AudioEngine_start :: "audio_engine \<Rightarrow> audio_engine" where
  "AudioEngine_start ae =
     (if \<not> initialized ae then ae
      else ae\<lparr>transport_started := True, ae_isPlaying := True\<rparr>)"

definition AudioEngine_stop :: "audio_engine \<Rightarrow> audio_engine" where
  "AudioEngine_stop ae =
     (if \<not> initialized ae then ae
      else ae\<lparr>transport_started := False, ae_isPlaying := False\<rparr>)"

definition AudioEngine_setTempo :: "js_number \<Rightarrow> audio_engine \<Rightarrow> audio_engine" where
  "AudioEngine_setTempo bpm ae =
     (if \<not> initialized ae then ae
      else ae\<lparr>tempo := bpm, transport_bpm := bpm\<rparr>)"

subsection \<open>Sequencer\<close>

text \<open>\<^verbatim>\<open>numRows\<close> and \<^verbatim>\<open>numSteps\<close> are assigned by the constructor and never again.\<close>

definition numRows :: int where
  "numRows = 8"

definition numSteps :: int where
  "numSteps = 16"

type_synonym grid = "bool list list"

record sequencer =
  audioEngine :: audio_engine
  currentStep :: int
  grid :: grid
  isPlaying :: bool
  activeStepsCache :: "int \<rightharpoonup> int list"
  trace :: "event list"

text \<open>\<^verbatim>\<open>Array(numRows).fill().map(() => Array(numSteps).fill(false))\<close>\<close>

definition empty_grid :: grid where
  "empty_grid = replicate (nat numRows) (replicate (nat numSteps) False)"

definition new_Sequencer :: "audio_engine \<Rightarrow> sequencer" where
  "new_Sequencer ae =
     \<lparr>audioEngine = ae, currentStep = - 1, grid = empty_grid, isPlaying = False,
      activeStepsCache = Map.empty, trace = []\<rparr>"

text \<open>\<^verbatim>\<open>grid[row][step]\<close> and \<^verbatim>\<open>grid[row][step] = v\<close>; the code reaches both only behind its
  bounds check.\<close>

definition cell :: "grid \<Rightarrow> int \<Rightarrow> int \<Rightarrow> bool" where
  "cell g row step = g ! nat row ! nat step"

definition set_cell :: "grid \<Rightarrow> int \<Rightarrow> int \<Rightarrow> bool \<Rightarrow> grid" where
  "set_cell g row step v = g[nat row := (g ! nat row)[nat step := v]]"

definition in_bounds :: "int \<Rightarrow> int \<Rightarrow> bool" where
  "in_bounds row step = (row \<ge> 0 \<and> row < numRows \<and> step \<ge> 0 \<and> step < numSteps)"

text \<open>The call \<^verbatim>\<open>this.audioEngine.scheduleNote(row, time)\<close>, as the sequencer makes it.\<close>

definition scheduleNote :: "int \<Rightarrow> time \<Rightarrow> sequencer \<Rightarrow> sequencer" where
  "scheduleNote row t s =
     s\<lparr>audioEngine := AudioEngine_scheduleNote row t (audioEngine s),
       trace := trace s @ [ScheduleNote row t]\<rparr>"

definition dispatchStepEvent :: "sequencer \<Rightarrow> sequencer" where
  "dispatchStepEvent s = s\<lparr>trace := trace s @ [StepEvent (currentStep s)]\<rparr>"

text \<open>\<^verbatim>\<open>%\<close> is JavaScript's remainder, which takes the sign of the dividend: \<open>smod\<close>.\<close>

definition onStep :: "time \<Rightarrow> sequencer \<Rightarrow> sequencer" where
  "onStep t s =
     (let s1 = s\<lparr>currentStep := (currentStep s + 1) smod numSteps\<rparr> in
      let s2 = (case activeStepsCache s1 (currentStep s1) of
                  Some activeRows \<Rightarrow> fold (\<lambda>row. scheduleNote row t) activeRows s1
                | None \<Rightarrow> s1)
      in dispatchStepEvent s2)"

text \<open>The full rebuild: the outer loop over the steps, the inner one over the rows.\<close>

definition activeRowsAt :: "grid \<Rightarrow> int \<Rightarrow> int list" where
  "activeRowsAt g step = filter (\<lambda>row. cell g row step) [0..numRows - 1]"

definition rebuildStep :: "grid \<Rightarrow> int \<Rightarrow> (int \<rightharpoonup> int list) \<Rightarrow> (int \<rightharpoonup> int list)" where
  "rebuildStep g step m =
     (let activeRows = activeRowsAt g step
      in if length activeRows > 0 then m(step \<mapsto> activeRows) else m)"

definition updateActiveStepsCache :: "sequencer \<Rightarrow> sequencer" where
  "updateActiveStepsCache s =
     s\<lparr>activeStepsCache := fold (rebuildStep (grid s)) [0..numSteps - 1] Map.empty\<rparr>"

text \<open>The patch for one cell. \<^verbatim>\<open>push\<close> appends to the array held in the map.\<close>

definition updateActiveStepCache :: "int \<Rightarrow> int \<Rightarrow> sequencer \<Rightarrow> sequencer" where
  "updateActiveStepCache row step s =
     (let isActive = cell (grid s) row step;
          activeRows = (case activeStepsCache s step of Some rows \<Rightarrow> rows | None \<Rightarrow> [])
      in if isActive then
           (if row \<notin> set activeRows
            then s\<lparr>activeStepsCache := (activeStepsCache s)(step \<mapsto> activeRows @ [row])\<rparr>
            else s)
         else
           (let activeRows' = filter (\<lambda>r. r \<noteq> row) activeRows
            in if length activeRows' > 0
               then s\<lparr>activeStepsCache := (activeStepsCache s)(step \<mapsto> activeRows')\<rparr>
               else s\<lparr>activeStepsCache := (activeStepsCache s)(step := None)\<rparr>))"

text \<open>\<^verbatim>\<open>toggleStep(row, step)\<close>; \<open>now\<close> is what \<^verbatim>\<open>Tone.now()\<close> returns at the call.\<close>

definition toggleStep :: "int \<Rightarrow> int \<Rightarrow> time \<Rightarrow> sequencer \<Rightarrow> bool \<times> sequencer" where
  "toggleStep row step now s =
     (if in_bounds row step then
        (let s1 = s\<lparr>grid := set_cell (grid s) row step (\<not> cell (grid s) row step)\<rparr>;
             s2 = updateActiveStepCache row step s1;
             s3 = (if isPlaying s2 \<and> currentStep s2 = step \<and> cell (grid s2) row step
                   then scheduleNote row now s2 else s2)
         in (cell (grid s3) row step, s3))
      else (False, s))"

definition setStep :: "int \<Rightarrow> int \<Rightarrow> bool \<Rightarrow> sequencer \<Rightarrow> sequencer" where
  "setStep row step state s =
     (if in_bounds row step
      then updateActiveStepCache row step (s\<lparr>grid := set_cell (grid s) row step state\<rparr>)
      else s)"

definition getStep :: "int \<Rightarrow> int \<Rightarrow> sequencer \<Rightarrow> bool" where
  "getStep row step s = (if in_bounds row step then cell (grid s) row step else False)"

definition clearGrid :: "sequencer \<Rightarrow> sequencer" where
  "clearGrid s = s\<lparr>grid := empty_grid, activeStepsCache := Map.empty\<rparr>"

text \<open>One pass of \<^verbatim>\<open>setPattern\<close>'s loop, then the loop, then the method.\<close>

text \<open>The loop's guard \<^verbatim>\<open>Array.isArray(pattern[row]) && pattern[row].length === this.numSteps\<close>,
  giving the cells that \<^verbatim>\<open>[...pattern[row]]\<close> copies when it holds.\<close>

definition accepted_row :: "row_value \<Rightarrow> bool list option" where
  "accepted_row r =
     (case r of
        RowArray cells \<Rightarrow> if int (length cells) = numSteps then Some cells else None
      | RowNotArray \<Rightarrow> None)"

definition setPatternRow :: "row_value list \<Rightarrow> int \<Rightarrow> grid \<Rightarrow> grid" where
  "setPatternRow rows row g =
     (case accepted_row (rows ! nat row) of
        Some cells \<Rightarrow> g[nat row := cells]
      | None \<Rightarrow> g)"

definition setPattern :: "pattern_value \<Rightarrow> sequencer \<Rightarrow> sequencer" where
  "setPattern pattern s =
     (case pattern of
        PatternArray rows \<Rightarrow>
          if int (length rows) = numRows
          then updateActiveStepsCache
                 (s\<lparr>grid := fold (setPatternRow rows) [0..numRows - 1] (grid s)\<rparr>)
          else s
      | PatternNotArray \<Rightarrow> s)"

text \<open>\<^verbatim>\<open>init()\<close> registers \<^verbatim>\<open>onStep\<close> with the transport (the callbacks are the \<open>OnStep\<close>
  calls of a history below), resets the step and rebuilds the index.\<close>

definition init :: "sequencer \<Rightarrow> sequencer" where
  "init s = updateActiveStepsCache (s\<lparr>currentStep := - 1\<rparr>)"

definition start :: "sequencer \<Rightarrow> sequencer" where
  "start s = s\<lparr>audioEngine := AudioEngine_start (audioEngine s), isPlaying := True\<rparr>"

definition stop :: "sequencer \<Rightarrow> sequencer" where
  "stop s =
     dispatchStepEvent
       (s\<lparr>audioEngine := AudioEngine_stop (audioEngine s), isPlaying := False,
          currentStep := - 1\<rparr>)"

definition setTempo :: "js_number \<Rightarrow> sequencer \<Rightarrow> sequencer" where
  "setTempo bpm s = s\<lparr>audioEngine := AudioEngine_setTempo bpm (audioEngine s)\<rparr>"

subsection \<open>Sequences of calls\<close>

text \<open>The public methods that change the pattern.\<close>

datatype edit = ToggleStep int int time | SetStep int int bool | ClearGrid
  | SetPattern pattern_value

fun apply_edit :: "edit \<Rightarrow> sequencer \<Rightarrow> sequencer" where
  "apply_edit (ToggleStep row step now) s = snd (toggleStep row step now s)"
| "apply_edit (SetStep row step state) s = setStep row step state s"
| "apply_edit ClearGrid s = clearGrid s"
| "apply_edit (SetPattern pattern) s = setPattern pattern s"

text \<open>Any public call, and a history of calls. \<open>EngineInit\<close> is the application's
  \<^verbatim>\<open>await audioEngine.init()\<close> on the engine the sequencer holds.\<close>

datatype call = Edit edit | OnStep time | Start | Stop | SetTempo js_number | Init
  | EngineInit "init_failure option"

fun apply_call :: "call \<Rightarrow> sequencer \<Rightarrow> sequencer" where
  "apply_call (Edit e) s = apply_edit e s"
| "apply_call (OnStep t) s = onStep t s"
| "apply_call Start s = start s"
| "apply_call Stop s = stop s"
| "apply_call (SetTempo bpm) s = setTempo bpm s"
| "apply_call Init s = init s"
| "apply_call (EngineInit failure) s =
     s\<lparr>audioEngine := snd (AudioEngine_init failure (audioEngine s))\<rparr>"

definition run :: "call list \<Rightarrow> sequencer \<Rightarrow> sequencer" where
  "run cs s = fold apply_call cs s"

fun is_OnStep :: "call \<Rightarrow> bool" where
  "is_OnStep (OnStep t) = True"
| "is_OnStep _ = False"

definition onStep_count :: "call list \<Rightarrow> nat" where
  "onStep_count cs = length (filter is_OnStep cs)"

text \<open>Consecutive scheduler callbacks, one per due time.\<close>

definition onSteps :: "time list \<Rightarrow> sequencer \<Rightarrow> sequencer" where
  "onSteps ts s = fold onStep ts s"

text \<open>Reading the trace.\<close>

definition step_events :: "event list \<Rightarrow> int list" where
  "step_events evs = concat (map (\<lambda>e. case e of StepEvent i \<Rightarrow> [i] | _ \<Rightarrow> []) evs)"

definition triggered_rows :: "event list \<Rightarrow> int list" where
  "triggered_rows evs = concat (map (\<lambda>e. case e of ScheduleNote r _ \<Rightarrow> [r] | _ \<Rightarrow> []) evs)"

text \<open>What a method call added to the trace.\<close>

definition emitted :: "sequencer \<Rightarrow> sequencer \<Rightarrow> event list" where
  "emitted s s' = drop (length (trace s)) (trace s')"

text \<open>The rows the index holds for a step, as \<^verbatim>\<open>onStep\<close> reads them.\<close>

definition index_rows :: "sequencer \<Rightarrow> int \<Rightarrow> int list" where
  "index_rows s step = (case activeStepsCache s step of Some rows \<Rightarrow> rows | None \<Rightarrow> [])"

text \<open>The shape every grid has that the constructor, \<^verbatim>\<open>clearGrid\<close> and \<^verbatim>\<open>setPattern\<close> build.\<close>

definition wf_grid :: "grid \<Rightarrow> bool" where
  "wf_grid g = (int (length g) = numRows \<and> list_all (\<lambda>r. int (length r) = numSteps) g)"

text \<open>The index-consistency invariant: no empty entry, no row twice, and a row is in the
  entry of a step exactly when \<^verbatim>\<open>getStep\<close> reports the cell active.\<close>

definition index_consistent :: "sequencer \<Rightarrow> bool" where
  "index_consistent s =
     (\<forall>step. activeStepsCache s step \<noteq> Some []
            \<and> distinct (index_rows s step)
            \<and> (\<forall>row. row \<in> set (index_rows s step) \<longleftrightarrow> getStep row step s))"

definition invar :: "sequencer \<Rightarrow> bool" where
  "invar s = (wf_grid (grid s) \<and> index_consistent s)"

text \<open>A pattern argument with the wrong number of rows, or with a row of the wrong number of
  steps (or one that is no array at all).\<close>

definition mismatched :: "pattern_value \<Rightarrow> bool" where
  "mismatched pattern =
     (case pattern of
        PatternArray rows \<Rightarrow>
          int (length rows) \<noteq> numRows \<or> list_ex (\<lambda>r. accepted_row r = None) rows
      | PatternNotArray \<Rightarrow> True)"

subsection \<open>Example inputs\<close>

text \<open>An example argument: eight rows, the first with 16 active steps, the second with one
  step only, the other six with 16 inactive steps.\<close>

definition short_row_pattern :: pattern_value where
  "short_row_pattern =
     PatternArray (RowArray (replicate 16 True) # RowArray [True]
                   # replicate 6 (RowArray (replicate 16 False)))"

text \<open>Two example inputs: a history that activates row 2 and then row 0 at step 0, and a
  pattern argument in which every row is active at step 0 only.\<close>

definition rows_2_then_0 :: "call list" where
  "rows_2_then_0 = [Edit (SetStep 2 0 True), Edit (SetStep 0 0 True)]"

definition first_step_pattern :: "row_value list" where
  "first_step_pattern = replicate 8 (RowArray (True # replicate 15 False))"

text \<open>The sequencer as the application has it once its start-up succeeded: the engine
  initialised, then \<^verbatim>\<open>sequencer.init()\<close>.\<close>

definition ready_Sequencer :: sequencer where
  "ready_Sequencer = init (apply_call (EngineInit None) (new_Sequencer new_AudioEngine))"

text \<open>Two more histories: one that activates row 0 and then row 1 at step 0, and the
  application started and played up to step 7 (eight scheduler callbacks).\<close>

definition rows_0_then_1 :: "call list" where
  "rows_0_then_1 = [Edit (SetStep 0 0 True), Edit (SetStep 1 0 True)]"

definition playing_at_step_7 :: "call list" where
  "playing_at_step_7 = [EngineInit None, Init, Start] @ map OnStep [0, 1, 2, 3, 4, 5, 6, 7]"

section \<open>Grid and index lemmas\<close>

lemma wf_grid_nth:
  "wf_grid g \<Longrightarrow> 0 \<le> row \<Longrightarrow> row < numRows \<Longrightarrow> int (length (g ! nat row)) = numSteps"
proof -
  assume a: "wf_grid g" "0 \<le> row" "row < numRows"
  then have "nat row < length g" by (auto simp: wf_grid_def nat_less_iff)
  with a(1) show ?thesis by (simp add: wf_grid_def list_all_length)
qed

lemma wf_set_cell: "wf_grid g \<Longrightarrow> wf_grid (set_cell g row step v)"
proof -
  assume wf: "wf_grid g"
  have "length (set_cell g row step v ! n) = length (g ! n)" for n
    by (cases "nat row < length g"; cases "n = nat row") (simp_all add: set_cell_def list_update_beyond)
  moreover have "length (set_cell g row step v) = length g"
    by (simp add: set_cell_def)
  ultimately show ?thesis
    using wf by (simp add: wf_grid_def list_all_length)
qed

lemma cell_set_cell:
  assumes "wf_grid g" "in_bounds row step" "in_bounds row' step'"
  shows "cell (set_cell g row step v) row' step' = (if row' = row \<and> step' = step then v else cell g row' step')"
proof -
  have l: "nat row < length g" "nat row' < length g"
    using assms by (auto simp: wf_grid_def in_bounds_def)
  have "nat step < length (g ! nat row)"
    using wf_grid_nth[OF assms(1), of row] assms(2) by (auto simp: in_bounds_def)
  moreover have "nat row' = nat row \<longleftrightarrow> row' = row" "nat step' = nat step \<longleftrightarrow> step' = step"
    using assms by (auto simp: in_bounds_def)
  ultimately show ?thesis using l
    by (auto simp: cell_def set_cell_def nth_list_update)
qed

lemma wf_empty_grid: "wf_grid empty_grid"
  by (simp add: wf_grid_def empty_grid_def numRows_def numSteps_def list_all_length)

lemma cell_empty_grid: "in_bounds row step \<Longrightarrow> \<not> cell empty_grid row step"
proof -
  assume "in_bounds row step"
  then have "nat row < 8" "nat step < 16"
    by (auto simp: in_bounds_def numRows_def numSteps_def)
  then show ?thesis
    by (simp add: cell_def empty_grid_def numRows_def numSteps_def)
qed

lemma rebuild_fold:
  "fold (rebuildStep g) steps m0 k
   = (if k \<in> set steps \<and> activeRowsAt g k \<noteq> [] then Some (activeRowsAt g k) else m0 k)"
  by (induction steps arbitrary: m0) (auto simp: Let_def rebuildStep_def)

lemma index_rows_rebuild:
  "index_rows (updateActiveStepsCache s) step =
     (if 0 \<le> step \<and> step < numSteps then activeRowsAt (grid s) step else [])"
  by (auto simp: updateActiveStepsCache_def index_rows_def rebuild_fold)

lemma cache_rebuild_nonempty: "activeStepsCache (updateActiveStepsCache s) step \<noteq> Some []"
  by (auto simp: updateActiveStepsCache_def rebuild_fold)

lemma grid_rebuild: "grid (updateActiveStepsCache s) = grid s"
  by (simp add: updateActiveStepsCache_def)

lemma set_activeRowsAt: "set (activeRowsAt g step) = {row. 0 \<le> row \<and> row < numRows \<and> cell g row step}"
  by (auto simp: activeRowsAt_def)

lemma index_consistent_rebuild: "index_consistent (updateActiveStepsCache s)"
  unfolding index_consistent_def
  by (auto simp: index_rows_rebuild cache_rebuild_nonempty set_activeRowsAt getStep_def in_bounds_def grid_rebuild activeRowsAt_def)


lemma grid_patch: "grid (updateActiveStepCache row step s) = grid s"
  by (simp add: updateActiveStepCache_def Let_def)

lemma index_rows_patch:
  "index_rows (updateActiveStepCache row step s) step' =
     (if step' = step
      then (if cell (grid s) row step
            then (if row \<in> set (index_rows s step) then index_rows s step
                  else index_rows s step @ [row])
            else filter (\<lambda>r. r \<noteq> row) (index_rows s step))
      else index_rows s step')"
  by (auto simp: updateActiveStepCache_def index_rows_def Let_def split: option.splits)

lemma cache_patch_nonempty:
  "activeStepsCache s step' \<noteq> Some [] \<Longrightarrow>
   activeStepsCache (updateActiveStepCache row step s) step' \<noteq> Some []"
  by (auto simp: updateActiveStepCache_def Let_def split: option.splits if_splits)

lemma getStep_set_cell:
  assumes "wf_grid (grid s)" "in_bounds row step"
  shows "getStep row' step' (s\<lparr>grid := set_cell (grid s) row step v\<rparr>) =
         (if row' = row \<and> step' = step then v else getStep row' step' s)"
  using assms by (auto simp: getStep_def cell_set_cell)

lemma getStep_patch: "getStep row' step' (updateActiveStepCache row step s) = getStep row' step' s"
  by (simp add: getStep_def grid_patch)

lemma index_rows_grid_upd: "index_rows (s\<lparr>grid := g\<rparr>) step = index_rows s step"
  by (simp add: index_rows_def)

lemma patch_consistent:
  assumes wf: "wf_grid (grid s)" and ic: "index_consistent s" and ib: "in_bounds row step"
  shows "index_consistent (updateActiveStepCache row step (s\<lparr>grid := set_cell (grid s) row step v\<rparr>))"
proof -
  let ?s1 = "s\<lparr>grid := set_cell (grid s) row step v\<rparr>"
  have c: "cell (grid ?s1) row step = v"
    using wf ib by (simp add: cell_set_cell)
  have d: "distinct (index_rows s k)" and m: "row' \<in> set (index_rows s k) \<longleftrightarrow> getStep row' k s"
    and n: "activeStepsCache s k \<noteq> Some []" for k row'
    using ic by (auto simp: index_consistent_def)
  show ?thesis
    unfolding index_consistent_def
  proof (intro allI conjI)
    fix k
    have "activeStepsCache ?s1 k \<noteq> Some []" using n by simp
    then show "activeStepsCache (updateActiveStepCache row step ?s1) k \<noteq> Some []"
      by (rule cache_patch_nonempty)
    show "distinct (index_rows (updateActiveStepCache row step ?s1) k)"
      using d by (simp add: index_rows_patch index_rows_grid_upd)
    fix row'
    show "row' \<in> set (index_rows (updateActiveStepCache row step ?s1) k) \<longleftrightarrow>
          getStep row' k (updateActiveStepCache row step ?s1)"
      unfolding getStep_patch getStep_set_cell[OF wf ib] index_rows_patch c index_rows_grid_upd
      using m ib by (auto simp: getStep_def)
  qed
qed

lemma wf_patch: "wf_grid (grid s) \<Longrightarrow> wf_grid (grid (updateActiveStepCache row step s))"
  by (simp add: grid_patch)

lemma invar_new: "invar (new_Sequencer ae)"
  by (auto simp: invar_def new_Sequencer_def wf_empty_grid index_consistent_def index_rows_def
      getStep_def cell_empty_grid)

lemma invar_clearGrid: "invar (clearGrid s)"
  by (auto simp: invar_def clearGrid_def wf_empty_grid index_consistent_def index_rows_def
      getStep_def cell_empty_grid)

lemma index_rows_scheduleNote: "index_rows (scheduleNote r t s) k = index_rows s k"
  by (simp add: index_rows_def scheduleNote_def)

lemma invar_scheduleNote: "invar s \<Longrightarrow> invar (scheduleNote r t s)"
  by (simp add: invar_def index_consistent_def index_rows_scheduleNote getStep_def)
     (simp add: scheduleNote_def)

lemma invar_set_and_patch:
  "invar s \<Longrightarrow> in_bounds row step \<Longrightarrow>
   invar (updateActiveStepCache row step (s\<lparr>grid := set_cell (grid s) row step v\<rparr>))"
  by (simp add: invar_def patch_consistent grid_patch wf_set_cell)

lemma invar_setStep: "invar s \<Longrightarrow> invar (setStep row step state s)"
  by (simp add: setStep_def invar_set_and_patch)

lemma invar_toggleStep: "invar s \<Longrightarrow> invar (snd (toggleStep row step now s))"
  by (simp add: toggleStep_def Let_def invar_scheduleNote invar_set_and_patch)

lemma wf_row_update:
  assumes wf: "wf_grid g" and c: "int (length cells) = numSteps"
  shows "wf_grid (g[n := cells])"
proof -
  have "int (length (g[n := cells] ! k)) = numSteps" if "k < length g" for k
    using wf c that by (cases "k = n") (simp_all add: wf_grid_def list_all_length)
  then show ?thesis
    using wf by (simp add: wf_grid_def list_all_length)
qed

lemma accepted_row_length: "accepted_row r = Some cells \<Longrightarrow> int (length cells) = numSteps"
  by (auto simp: accepted_row_def split: row_value.splits if_splits)

lemma wf_setPatternRow: "wf_grid g \<Longrightarrow> wf_grid (setPatternRow rows row g)"
  by (auto simp: setPatternRow_def wf_row_update accepted_row_length split: option.splits)

lemma wf_fold_setPatternRow: "wf_grid g \<Longrightarrow> wf_grid (fold (setPatternRow rows) ks g)"
  by (induction ks arbitrary: g) (simp_all add: wf_setPatternRow)

lemma invar_setPattern: "invar s \<Longrightarrow> invar (setPattern pattern s)"
  by (auto simp: setPattern_def invar_def index_consistent_rebuild grid_rebuild
      wf_fold_setPatternRow split: pattern_value.splits)

lemma invar_apply_edit: "invar s \<Longrightarrow> invar (apply_edit e s)"
  by (cases e) (simp_all add: invar_toggleStep invar_setStep invar_clearGrid invar_setPattern)

section \<open>Trace and transport lemmas\<close>

lemma step_events_append: "step_events (xs @ ys) = step_events xs @ step_events ys"
  by (simp add: step_events_def)

lemma step_events_simps [simp]:
  "step_events [] = []"
  "step_events [StepEvent i] = [i]"
  "step_events [ScheduleNote r t] = []"
  by (simp_all add: step_events_def)

lemma triggered_rows_simps [simp]:
  "triggered_rows [] = []"
  "triggered_rows [StepEvent i] = []"
  "triggered_rows [ScheduleNote r t] = [r]"
  by (simp_all add: triggered_rows_def)

lemma triggered_rows_append: "triggered_rows (xs @ ys) = triggered_rows xs @ triggered_rows ys"
  by (simp add: triggered_rows_def)

lemma fold_scheduleNote:
  "trace (fold (\<lambda>row. scheduleNote row t) rows s) = trace s @ map (\<lambda>r. ScheduleNote r t) rows"
  "currentStep (fold (\<lambda>row. scheduleNote row t) rows s) = currentStep s"
  "grid (fold (\<lambda>row. scheduleNote row t) rows s) = grid s"
  "activeStepsCache (fold (\<lambda>row. scheduleNote row t) rows s) = activeStepsCache s"
  "isPlaying (fold (\<lambda>row. scheduleNote row t) rows s) = isPlaying s"
  by (induction rows arbitrary: s) (simp_all add: scheduleNote_def)

lemma onStep_trace:
  "trace (onStep t s) =
     trace s @ map (\<lambda>r. ScheduleNote r t) (index_rows s ((currentStep s + 1) smod numSteps))
       @ [StepEvent ((currentStep s + 1) smod numSteps)]"
  by (simp add: onStep_def Let_def dispatchStepEvent_def index_rows_def fold_scheduleNote
      split: option.splits)

lemma onStep_fields:
  "currentStep (onStep t s) = (currentStep s + 1) smod numSteps"
  "grid (onStep t s) = grid s"
  "activeStepsCache (onStep t s) = activeStepsCache s"
  "isPlaying (onStep t s) = isPlaying s"
  by (simp_all add: onStep_def Let_def dispatchStepEvent_def fold_scheduleNote split: option.splits)

lemma step_events_notes [simp]: "step_events (map (\<lambda>r. ScheduleNote r t) rows) = []"
  by (induction rows) (simp_all add: step_events_def)

lemma triggered_rows_notes [simp]: "triggered_rows (map (\<lambda>r. ScheduleNote r t) rows) = rows"
  by (induction rows) (simp_all add: triggered_rows_def)

lemma patch_fields:
  "trace (updateActiveStepCache row step s) = trace s"
  "currentStep (updateActiveStepCache row step s) = currentStep s"
  "isPlaying (updateActiveStepCache row step s) = isPlaying s"
  "audioEngine (updateActiveStepCache row step s) = audioEngine s"
  by (simp_all add: updateActiveStepCache_def Let_def)

lemma toggleStep_trace:
  "trace (snd (toggleStep row step now s)) =
     trace s @ (if in_bounds row step \<and> isPlaying s \<and> currentStep s = step
                   \<and> cell (set_cell (grid s) row step (\<not> cell (grid s) row step)) row step
                then [ScheduleNote row now] else [])"
  by (simp add: toggleStep_def Let_def patch_fields grid_patch scheduleNote_def)

lemma toggleStep_currentStep: "currentStep (snd (toggleStep row step now s)) = currentStep s"
  by (simp add: toggleStep_def Let_def patch_fields scheduleNote_def)

lemma rebuild_fields:
  "trace (updateActiveStepsCache s) = trace s"
  "currentStep (updateActiveStepsCache s) = currentStep s"
  "isPlaying (updateActiveStepsCache s) = isPlaying s"
  "audioEngine (updateActiveStepsCache s) = audioEngine s"
  by (simp_all add: updateActiveStepsCache_def)

lemma apply_edit_currentStep: "currentStep (apply_edit e s) = currentStep s"
  by (cases e)
     (simp_all add: toggleStep_currentStep setStep_def patch_fields clearGrid_def setPattern_def
        rebuild_fields split: pattern_value.splits)

lemma apply_edit_step_events: "step_events (trace (apply_edit e s)) = step_events (trace s)"
  by (cases e)
     (simp_all add: toggleStep_trace step_events_append setStep_def patch_fields clearGrid_def
        setPattern_def rebuild_fields split: pattern_value.splits)

lemma smod_nonneg: "0 \<le> a \<Longrightarrow> a smod numSteps = a mod numSteps"
  by (cases "a = 0") (simp_all add: smod_int_alt_def numSteps_def)

lemma trace_grows_call: "\<exists>evs. trace (apply_call c s) = trace s @ evs"
proof (cases c)
  case (Edit e)
  then show ?thesis
    by (cases e)
       (simp_all add: toggleStep_trace setStep_def patch_fields clearGrid_def setPattern_def
          rebuild_fields split: pattern_value.splits)
qed (simp_all add: onStep_trace start_def stop_def dispatchStepEvent_def setTempo_def init_def
       rebuild_fields)

lemma trace_grows_run: "\<exists>evs. trace (run cs s) = trace s @ evs"
  unfolding run_def
proof (induction cs arbitrary: s)
  case Nil
  then show ?case by simp
next
  case (Cons c cs)
  obtain e1 where e1: "trace (apply_call c s) = trace s @ e1"
    using trace_grows_call by blast
  obtain e2 where "trace (fold apply_call cs (apply_call c s)) = trace (apply_call c s) @ e2"
    using Cons.IH by blast
  with e1 show ?case by simp
qed

lemma trace_emitted_run: "trace (run cs s) = trace s @ emitted s (run cs s)"
  using trace_grows_run[of cs s] by (auto simp: emitted_def)

lemma run_snoc: "run (cs @ [c]) s = apply_call c (run cs s)"
  by (simp add: run_def)

lemma playback_steps:
  assumes "currentStep s = - 1" "Stop \<notin> set cs" "Init \<notin> set cs"
  shows "currentStep (run cs s) =
           (if onStep_count cs = 0 then - 1 else (int (onStep_count cs) - 1) mod numSteps)
         \<and> step_events (trace (run cs s)) =
             step_events (trace s) @ map (\<lambda>k. int k mod numSteps) [0..<onStep_count cs]"
  using assms(2,3)
proof (induction cs rule: rev_induct)
  case Nil
  then show ?case by (simp add: run_def onStep_count_def assms(1))
next
  case (snoc c cs)
  then have IH: "currentStep (run cs s) =
           (if onStep_count cs = 0 then - 1 else (int (onStep_count cs) - 1) mod numSteps)"
     "step_events (trace (run cs s)) =
             step_events (trace s) @ map (\<lambda>k. int k mod numSteps) [0..<onStep_count cs]"
    by auto
  show ?case
  proof (cases c)
    case (OnStep t)
    have n: "onStep_count (cs @ [c]) = Suc (onStep_count cs)"
      using OnStep by (simp add: onStep_count_def)
    have nonneg: "0 \<le> currentStep (run cs s) + 1"
      unfolding IH(1) by (simp add: numSteps_def)
    have "(currentStep (run cs s) + 1) smod numSteps = (currentStep (run cs s) + 1) mod numSteps"
      by (rule smod_nonneg[OF nonneg])
    also have "\<dots> = int (onStep_count cs) mod numSteps"
      unfolding IH(1) by (simp add: mod_add_left_eq)
    finally have cs:
      "(currentStep (run cs s) + 1) smod numSteps = int (onStep_count cs) mod numSteps" .
    show ?thesis
      unfolding run_snoc n
      by (simp add: OnStep onStep_fields onStep_trace step_events_append IH(2) cs)
  next
    case (Edit e)
    then show ?thesis using IH
      by (simp add: run_snoc onStep_count_def apply_edit_currentStep apply_edit_step_events)
  qed (use snoc.prems IH in \<open>simp_all add: run_snoc onStep_count_def start_def setTempo_def\<close>)
qed

section \<open>Lemmas on \<^verbatim>\<open>setPattern\<close>\<close>

lemma upto_rows: "[0..7::int] = [0, 1, 2, 3, 4, 5, 6, 7]"
  by code_simp

lemma upto_steps: "[0..15::int] = [0, 1, 2, 3, 4, 5, 6, 7, 8, 9, 10, 11, 12, 13, 14, 15]"
  by code_simp

lemmas pattern_defs = setPattern_def setPatternRow_def accepted_row_def updateActiveStepsCache_def
  rebuildStep_def activeRowsAt_def upto_rows upto_steps short_row_pattern_def mismatched_def

lemma length_setPatternRow: "length (setPatternRow rows k g) = length g"
  by (simp add: setPatternRow_def split: option.splits)

lemma fold_setPatternRow_nth:
  assumes "n < length g" and "\<forall>k\<in>set ks. 0 \<le> k"
  shows "fold (setPatternRow rows) ks g ! n =
           (if int n \<in> set ks
            then (case accepted_row (rows ! n) of Some cells \<Rightarrow> cells | None \<Rightarrow> g ! n)
            else g ! n)"
  using assms
proof (induction ks arbitrary: g)
  case Nil
  then show ?case by simp
next
  case (Cons k ks)
  let ?g = "setPatternRow rows k g"
  have k: "0 \<le> k" using Cons.prems by simp
  have len: "n < length ?g" using Cons.prems by (simp add: length_setPatternRow)
  have one: "?g ! n = (if int n = k
               then (case accepted_row (rows ! n) of Some cells \<Rightarrow> cells | None \<Rightarrow> g ! n)
               else g ! n)"
  proof -
    have "nat k = n \<longleftrightarrow> int n = k" using k by auto
    then show ?thesis
      using Cons.prems(1) by (auto simp: setPatternRow_def split: option.splits)
  qed
  have "fold (setPatternRow rows) ks ?g ! n =
           (if int n \<in> set ks
            then (case accepted_row (rows ! n) of Some cells \<Rightarrow> cells | None \<Rightarrow> ?g ! n)
            else ?g ! n)"
    using Cons.IH[OF len] Cons.prems(2) by simp
  then show ?case
    by (auto simp: one split: option.splits)
qed

lemma grid_setPattern_row:
  assumes "wf_grid (grid s)" and "length rows = 8" and "0 \<le> row" and "row < 8"
  shows "grid (setPattern (PatternArray rows) s) ! nat row =
           (case accepted_row (rows ! nat row) of
              Some cells \<Rightarrow> cells
            | None \<Rightarrow> grid s ! nat row)"
proof -
  have "nat row < length (grid s)"
    using assms by (simp add: wf_grid_def numRows_def nat_less_iff)
  then show ?thesis
    using assms(2-4)
    by (simp add: setPattern_def numRows_def grid_rebuild fold_setPatternRow_nth)
qed

section \<open>Reachable states and the triggers of \<^verbatim>\<open>onStep\<close>\<close>

lemma invar_cong:
  "grid s' = grid s \<Longrightarrow> activeStepsCache s' = activeStepsCache s \<Longrightarrow> invar s' = invar s"
  by (simp add: invar_def index_consistent_def index_rows_def getStep_def)

lemma invar_onStep: "invar (onStep t s) = invar s"
  by (rule invar_cong) (simp_all add: onStep_fields)

lemma invar_init: "invar s \<Longrightarrow> invar (init s)"
  by (simp add: init_def invar_def index_consistent_rebuild grid_rebuild)

lemma invar_apply_call: "invar s \<Longrightarrow> invar (apply_call c s)"
proof (cases c)
  case (Edit e)
  then show "invar s \<Longrightarrow> ?thesis" by (simp add: invar_apply_edit)
next
  case Init
  then show "invar s \<Longrightarrow> ?thesis" by (simp add: invar_init)
next
  case (OnStep t)
  then show "invar s \<Longrightarrow> ?thesis" by (simp add: invar_onStep)
next
  case Start
  have "invar (start s) = invar s" by (rule invar_cong) (simp_all add: start_def)
  with Start show "invar s \<Longrightarrow> ?thesis" by simp
next
  case Stop
  have "invar (stop s) = invar s"
    by (rule invar_cong) (simp_all add: stop_def dispatchStepEvent_def)
  with Stop show "invar s \<Longrightarrow> ?thesis" by simp
next
  case (SetTempo bpm)
  have "invar (setTempo bpm s) = invar s" by (rule invar_cong) (simp_all add: setTempo_def)
  with SetTempo show "invar s \<Longrightarrow> ?thesis" by simp
next
  case (EngineInit f)
  have "invar (apply_call (EngineInit f) s) = invar s" by (rule invar_cong) simp_all
  with EngineInit show "invar s \<Longrightarrow> ?thesis" by simp
qed

lemma invar_run: "invar s \<Longrightarrow> invar (run cs s)"
  unfolding run_def
  by (induction cs arbitrary: s) (simp_all add: invar_apply_call)

lemma invar_reachable: "invar (run cs (new_Sequencer ae))"
  by (simp add: invar_run invar_new)

lemma emitted_onStep:
  "emitted s (onStep t s) =
     map (\<lambda>r. ScheduleNote r t) (index_rows s ((currentStep s + 1) smod numSteps))
       @ [StepEvent ((currentStep s + 1) smod numSteps)]"
  by (simp add: emitted_def onStep_trace)

lemma triggered_rows_onStep:
  "triggered_rows (emitted s (onStep t s)) = index_rows s ((currentStep s + 1) smod numSteps)"
  by (simp add: emitted_onStep triggered_rows_append)

lemma sorted_activeRowsAt: "sorted (activeRowsAt g k)"
  by (simp add: activeRowsAt_def sorted_filter[where f = "\<lambda>x. x", simplified])

lemma sorted_index_setPattern:
  "length rows = 8 \<Longrightarrow> sorted (index_rows (setPattern (PatternArray rows) s) k)"
  by (simp add: setPattern_def numRows_def index_rows_rebuild sorted_activeRowsAt)

lemma index_rows_activate:
  assumes "invar s" and "in_bounds row k" and "\<not> getStep row k s"
  shows "index_rows (setStep row k True s) k = index_rows s k @ [row]
       \<and> index_rows (snd (toggleStep row k now s)) k = index_rows s k @ [row]"
proof -
  have wf: "wf_grid (grid s)" and notin: "row \<notin> set (index_rows s k)"
    using assms by (auto simp: invar_def index_consistent_def)
  have off: "\<not> cell (grid s) row k"
    using assms(2,3) by (simp add: getStep_def)
  have "index_rows (setStep row k True s) k = index_rows s k @ [row]"
    using assms(2) notin wf
    by (simp add: setStep_def index_rows_patch index_rows_grid_upd cell_set_cell)
  moreover have "index_rows (snd (toggleStep row k now s)) k = index_rows s k @ [row]"
    using assms(2) notin wf off
    by (simp add: toggleStep_def Let_def index_rows_patch index_rows_grid_upd cell_set_cell
        index_rows_scheduleNote)
  ultimately show ?thesis by simp
qed

section \<open>Lemmas on \<^verbatim>\<open>toggleStep\<close> and on later loop passes\<close>

lemma toggleStep_result:
  assumes "wf_grid (grid s)" and "in_bounds row step"
  shows "fst (toggleStep row step now s) = (\<not> getStep row step s)"
    and "grid (snd (toggleStep row step now s)) = set_cell (grid s) row step (\<not> getStep row step s)"
    and "getStep row step (snd (toggleStep row step now s)) = (\<not> getStep row step s)"
  using assms
  by (simp_all add: toggleStep_def Let_def grid_patch scheduleNote_def getStep_def cell_set_cell)

lemma set_cell_twice:
  assumes "wf_grid g" and "in_bounds row step"
  shows "set_cell (set_cell g row step v) row step (cell g row step) = g"
proof -
  have "nat row < length g"
    using assms by (auto simp: wf_grid_def in_bounds_def nat_less_iff)
  then show ?thesis
    by (simp add: set_cell_def cell_def)
qed

lemma toggleStep_twice_grid:
  assumes "wf_grid (grid s)" and "in_bounds row step"
  shows "grid (snd (toggleStep row step now' (snd (toggleStep row step now s)))) = grid s"
proof -
  let ?s1 = "snd (toggleStep row step now s)"
  have wf1: "wf_grid (grid ?s1)"
    using assms by (simp add: toggleStep_result wf_set_cell)
  have "grid (snd (toggleStep row step now' ?s1))
          = set_cell (grid ?s1) row step (\<not> getStep row step ?s1)"
    by (rule toggleStep_result(2)[OF wf1 assms(2)])
  also have "\<dots> = set_cell (set_cell (grid s) row step (\<not> getStep row step s)) row step
                     (cell (grid s) row step)"
    using assms by (simp add: toggleStep_result) (simp add: getStep_def)
  also have "\<dots> = grid s"
    by (rule set_cell_twice[OF assms])
  finally show ?thesis .
qed

lemma index_rows_toggleStep:
  assumes "wf_grid (grid s)" and "in_bounds row step"
  shows "index_rows (snd (toggleStep row step now s)) k =
           (if k = step
            then (if getStep row step s
                  then filter (\<lambda>r. r \<noteq> row) (index_rows s step)
                  else (if row \<in> set (index_rows s step) then index_rows s step
                        else index_rows s step @ [row]))
            else index_rows s k)"
  using assms
  by (simp add: toggleStep_def Let_def index_rows_scheduleNote index_rows_patch
      index_rows_grid_upd cell_set_cell getStep_def)

lemma cache_from_index_rows:
  assumes "invar s"
  shows "activeStepsCache s k = (if index_rows s k = [] then None else Some (index_rows s k))"
proof -
  have "activeStepsCache s k \<noteq> Some []"
    using assms by (simp add: invar_def index_consistent_def)
  then show ?thesis
    by (cases "activeStepsCache s k") (simp_all add: index_rows_def)
qed

lemma cache_eqI:
  assumes "invar s" and "invar s'" and "\<And>k. index_rows s' k = index_rows s k"
  shows "activeStepsCache s' = activeStepsCache s"
  by (rule ext) (simp add: cache_from_index_rows[OF assms(1)] cache_from_index_rows[OF assms(2)]
      assms(3))

lemma index_rows_toggleStep_twice:
  assumes "invar s" and "in_bounds row step"
  shows "index_rows (snd (toggleStep row step now' (snd (toggleStep row step now s)))) k =
           (if k = step \<and> getStep row step s
            then filter (\<lambda>r. r \<noteq> row) (index_rows s step) @ [row]
            else index_rows s k)"
proof -
  let ?s1 = "snd (toggleStep row step now s)"
  have wf: "wf_grid (grid s)" using assms(1) by (simp add: invar_def)
  have wf1: "wf_grid (grid ?s1)"
    using wf assms(2) by (simp add: toggleStep_result wf_set_cell)
  have mem: "row \<in> set (index_rows s step) \<longleftrightarrow> getStep row step s"
    using assms(1) by (simp add: invar_def index_consistent_def)
  show ?thesis
    unfolding index_rows_toggleStep[OF wf1 assms(2)] toggleStep_result(3)[OF wf assms(2)]
      index_rows_toggleStep[OF wf assms(2)]
    using mem by (auto simp: filter_id_conv)
qed

lemma onSteps_fields:
  "grid (onSteps ts s) = grid s"
  "activeStepsCache (onSteps ts s) = activeStepsCache s"
  "isPlaying (onSteps ts s) = isPlaying s"
  unfolding onSteps_def
  by (induction ts arbitrary: s) (simp_all add: onStep_fields)

lemma index_rows_onSteps: "index_rows (onSteps ts s) k = index_rows s k"
  by (simp add: index_rows_def onSteps_fields)

lemma onSteps_currentStep:
  assumes "0 \<le> currentStep s" and "currentStep s < numSteps"
  shows "currentStep (onSteps ts s) = (currentStep s + int (length ts)) mod numSteps"
  using assms unfolding onSteps_def
proof (induction ts arbitrary: s)
  case Nil
  then show ?case by simp
next
  case (Cons t ts)
  have c: "currentStep (onStep t s) = (currentStep s + 1) mod numSteps"
    using Cons.prems by (simp add: onStep_fields smod_nonneg)
  then have "0 \<le> currentStep (onStep t s)" "currentStep (onStep t s) < numSteps"
    by (simp_all add: numSteps_def)
  from Cons.IH[OF this] show ?case
    by (simp add: c mod_add_left_eq add.assoc)
qed

lemma later_pass_fires:
  assumes "invar s" and "in_bounds row step" and "getStep row step s" and "currentStep s = step"
    and "length ts mod 16 = 15"
  shows "currentStep (onStep t (onSteps ts s)) = step
       \<and> ScheduleNote row t \<in> set (emitted (onSteps ts s) (onStep t (onSteps ts s)))"
proof -
  have b: "0 \<le> currentStep s" "currentStep s < numSteps"
    using assms(2,4) by (simp_all add: in_bounds_def)
  have c: "currentStep (onSteps ts s) = (step + int (length ts)) mod 16"
    using onSteps_currentStep[OF b, of ts] assms(4) by (simp add: numSteps_def)
  have l: "(int (length ts) + 1) mod 16 = 0"
    using assms(5) by presburger
  have "0 \<le> currentStep (onSteps ts s) + 1"
    unfolding c by simp
  then have "(currentStep (onSteps ts s) + 1) smod numSteps
               = (currentStep (onSteps ts s) + 1) mod numSteps"
    by (rule smod_nonneg)
  also have "\<dots> = (step + (int (length ts) + 1)) mod 16"
    unfolding c by (simp add: numSteps_def mod_add_left_eq add.assoc)
  also have "\<dots> = (step + (int (length ts) + 1) mod 16) mod 16"
    by (simp add: mod_add_right_eq)
  also have "\<dots> = step"
    using assms(2) by (simp add: l in_bounds_def numSteps_def)
  finally have nxt: "(currentStep (onSteps ts s) + 1) smod numSteps = step" .
  have "row \<in> set (index_rows s step)"
    using assms(1,3) by (simp add: invar_def index_consistent_def)
  then show ?thesis
    by (simp add: onStep_fields emitted_onStep nxt index_rows_onSteps)
qed

lemma emitted_toggleStep:
  assumes "wf_grid (grid s)"
  shows "emitted s (snd (toggleStep row step now s)) =
           (if in_bounds row step \<and> isPlaying s \<and> currentStep s = step \<and> \<not> getStep row step s
            then [ScheduleNote row now] else [])"
  using assms by (auto simp: emitted_def toggleStep_trace cell_set_cell getStep_def)

text \<open>Unfolding the methods on concrete inputs.\<close>

lemmas seq_defs = run_def setStep_def toggleStep_def in_bounds_def numRows_def
  numSteps_def set_cell_def cell_def updateActiveStepCache_def new_Sequencer_def empty_grid_def
  getStep_def Let_def index_rows_def scheduleNote_def new_AudioEngine_def clearGrid_def

section \<open>The claims\<close>

subsection \<open>C1: the index agrees with the grid\<close>

text \<open>
  C1. Take a new sequencer and call \<^verbatim>\<open>toggleStep\<close>, \<^verbatim>\<open>setStep\<close>, \<^verbatim>\<open>clearGrid\<close> and
  \<^verbatim>\<open>setPattern\<close> any number of times, in any order and with any arguments (the other public
  methods and the scheduler's \<^verbatim>\<open>onStep\<close> may come in between). Then for every step \<open>s\<close> and
  every row \<open>r\<close>, the Active-Step Index entry for \<open>s\<close> (the rows \<^verbatim>\<open>onStep\<close> would trigger;
  none when the step has no entry) contains \<open>r\<close> if and only if \<^verbatim>\<open>grid[r][s]\<close> is true, as
  \<^verbatim>\<open>getStep(r, s)\<close> reads it.
\<close>

theorem index_matches_grid:
  "row \<in> set (index_rows (run cs (new_Sequencer ae)) step) \<longleftrightarrow>
     getStep row step (run cs (new_Sequencer ae))"
  using invar_reachable[of cs ae]
  by (simp add: invar_def index_consistent_def)

theorem index_matches_grid_witness:
  "getStep 2 0
     (run [Edit (SetStep 2 0 True), Edit (ToggleStep 0 0 0), Edit (ToggleStep 0 0 1),
           Edit (SetStep 3 0 True)] (new_Sequencer new_AudioEngine))
   \<and> 2 \<in> set (index_rows
     (run [Edit (SetStep 2 0 True), Edit (ToggleStep 0 0 0), Edit (ToggleStep 0 0 1),
           Edit (SetStep 3 0 True)] (new_Sequencer new_AudioEngine)) 0)
   \<and> \<not> getStep 0 0
     (run [Edit (SetStep 2 0 True), Edit (ToggleStep 0 0 0), Edit (ToggleStep 0 0 1),
           Edit (SetStep 3 0 True)] (new_Sequencer new_AudioEngine))
   \<and> 0 \<notin> set (index_rows
     (run [Edit (SetStep 2 0 True), Edit (ToggleStep 0 0 0), Edit (ToggleStep 0 0 1),
           Edit (SetStep 3 0 True)] (new_Sequencer new_AudioEngine)) 0)"
proof -
  have g: "getStep 2 0
     (run [Edit (SetStep 2 0 True), Edit (ToggleStep 0 0 0), Edit (ToggleStep 0 0 1),
           Edit (SetStep 3 0 True)] (new_Sequencer new_AudioEngine))"
    "\<not> getStep 0 0
     (run [Edit (SetStep 2 0 True), Edit (ToggleStep 0 0 0), Edit (ToggleStep 0 0 1),
           Edit (SetStep 3 0 True)] (new_Sequencer new_AudioEngine))"
    by (simp_all add: seq_defs)
  with index_matches_grid
         [of 2 "[Edit (SetStep 2 0 True), Edit (ToggleStep 0 0 0), Edit (ToggleStep 0 0 1),
                 Edit (SetStep 3 0 True)]" new_AudioEngine 0]
       index_matches_grid
         [of 0 "[Edit (SetStep 2 0 True), Edit (ToggleStep 0 0 0), Edit (ToggleStep 0 0 1),
                 Edit (SetStep 3 0 True)]" new_AudioEngine 0]
  show ?thesis by blast
qed

subsection \<open>C2: the step sequence\<close>

text \<open>
  C2. Start from a stopped sequencer (\<open>currentStep = -1\<close>) and make any calls other than
  \<^verbatim>\<open>stop\<close> and \<^verbatim>\<open>init\<close>, among them \<open>k - 1\<close> calls of \<^verbatim>\<open>onStep\<close>. Then the next, \<open>k\<close>-th,
  \<^verbatim>\<open>onStep\<close> sets \<open>currentStep\<close> to \<open>(k - 1) mod 16\<close> and emits exactly one step event, which
  carries that index; and the step events observed so far are \<open>0, 1, 2, \<dots>\<close> taken modulo 16,
  one per \<^verbatim>\<open>onStep\<close>: they begin at 0, go up by one, and wrap from 15 to 0.
\<close>

theorem onStep_sequence:
  assumes "currentStep s = - 1" and "Stop \<notin> set cs" and "Init \<notin> set cs"
  shows "currentStep (onStep t (run cs s)) = int (onStep_count cs) mod 16
       \<and> step_events (emitted (run cs s) (onStep t (run cs s))) = [int (onStep_count cs) mod 16]
       \<and> step_events (emitted s (run cs s)) = map (\<lambda>k. int k mod 16) [0..<onStep_count cs]"
proof -
  have a: "Stop \<notin> set (cs @ [OnStep t])" "Init \<notin> set (cs @ [OnStep t])"
    using assms(2,3) by simp_all
  have n: "onStep_count (cs @ [OnStep t]) = Suc (onStep_count cs)"
    by (simp add: onStep_count_def)
  note after = playback_steps[OF assms(1) a, unfolded n run_snoc apply_call.simps]
  note before = playback_steps[OF assms]
  have 1: "currentStep (onStep t (run cs s)) = int (onStep_count cs) mod 16"
    using after by (simp add: numSteps_def)
  have "step_events (emitted (run cs s) (onStep t (run cs s))) = [currentStep (onStep t (run cs s))]"
    by (simp add: emitted_def onStep_trace onStep_fields step_events_append)
  with 1 have 2:
    "step_events (emitted (run cs s) (onStep t (run cs s))) = [int (onStep_count cs) mod 16]"
    by simp
  have "step_events (trace s) @ step_events (emitted s (run cs s))
     = step_events (trace s) @ map (\<lambda>k. int k mod 16) [0..<onStep_count cs]"
    using before trace_emitted_run[of cs s]
    by (simp add: step_events_append[symmetric] numSteps_def)
  then have 3: "step_events (emitted s (run cs s)) = map (\<lambda>k. int k mod 16) [0..<onStep_count cs]"
    by simp
  from 1 2 3 show ?thesis by blast
qed

theorem onStep_sequence_witness:
  "currentStep (onStep 5 (run (replicate 16 (OnStep 0)) (new_Sequencer new_AudioEngine))) = 0
   \<and> step_events (emitted (run (replicate 16 (OnStep 0)) (new_Sequencer new_AudioEngine))
        (onStep 5 (run (replicate 16 (OnStep 0)) (new_Sequencer new_AudioEngine)))) = [0]
   \<and> step_events (emitted (new_Sequencer new_AudioEngine)
        (run (replicate 16 (OnStep 0)) (new_Sequencer new_AudioEngine)))
      = [0, 1, 2, 3, 4, 5, 6, 7, 8, 9, 10, 11, 12, 13, 14, 15]"
proof -
  have u: "map (\<lambda>k. int k mod 16) [0..<16] = [0, 1, 2, 3, 4, 5, 6, 7, 8, 9, 10, 11, 12, 13, 14, 15]"
    by code_simp
  show ?thesis
    using onStep_sequence[of "new_Sequencer new_AudioEngine" "replicate 16 (OnStep 0)" 5]
    by (simp add: new_Sequencer_def onStep_count_def u)
qed

subsection \<open>C3: a pattern with a mismatching row\<close>

text \<open>
  C3, as stated, fails. \<^verbatim>\<open>setPattern\<close> checks the row count once and the step count row by
  row, inside the loop that copies the rows: an argument with 8 rows of which one has the
  wrong number of steps is applied in part. In \<open>short_row_pattern\<close> the second row has one
  step; the first row is copied all the same, and cell (0, 0) of a new sequencer changes.
\<close>

theorem setPattern_partial_counterexample:
  "mismatched short_row_pattern
   \<and> getStep 0 0 (setPattern short_row_pattern (new_Sequencer new_AudioEngine))
       \<noteq> getStep 0 0 (new_Sequencer new_AudioEngine)"
  by (simp add: pattern_defs seq_defs)

text \<open>
  C3, amended. For every pattern argument that is not an array or whose row count is not 8,
  \<^verbatim>\<open>setPattern\<close> changes no cell of the grid. For an argument with 8 rows it goes row by
  row: a row that is not an array of 16 steps is skipped, and the grid row at its index keeps
  all its cells; a row that is an array of 16 steps replaces the grid row at its index.
\<close>

theorem setPattern_row_by_row:
  assumes "wf_grid (grid s)"
  shows "((\<forall>rows'. pattern = PatternArray rows' \<longrightarrow> length rows' \<noteq> 8)
            \<longrightarrow> grid (setPattern pattern s) = grid s)
       \<and> (length rows = 8 \<and> 0 \<le> row \<and> row < 8
            \<longrightarrow> grid (setPattern (PatternArray rows) s) ! nat row =
                  (case accepted_row (rows ! nat row) of
                     Some cells \<Rightarrow> cells
                   | None \<Rightarrow> grid s ! nat row))"
proof (intro conjI impI)
  assume "\<forall>rows'. pattern = PatternArray rows' \<longrightarrow> length rows' \<noteq> 8"
  then show "grid (setPattern pattern s) = grid s"
    by (cases pattern) (simp_all add: setPattern_def numRows_def)
next
  assume "length rows = 8 \<and> 0 \<le> row \<and> row < 8"
  then show "grid (setPattern (PatternArray rows) s) ! nat row =
                  (case accepted_row (rows ! nat row) of
                     Some cells \<Rightarrow> cells
                   | None \<Rightarrow> grid s ! nat row)"
    using grid_setPattern_row[OF assms, of rows row] by simp
qed

theorem setPattern_row_by_row_witness:
  "wf_grid (grid (new_Sequencer new_AudioEngine))
   \<and> grid (setPattern (PatternArray []) (new_Sequencer new_AudioEngine))
       = grid (new_Sequencer new_AudioEngine)
   \<and> grid (setPattern short_row_pattern (new_Sequencer new_AudioEngine)) ! 0 = replicate 16 True
   \<and> grid (setPattern short_row_pattern (new_Sequencer new_AudioEngine)) ! 1
       = grid (new_Sequencer new_AudioEngine) ! 1"
proof -
  have wf: "wf_grid (grid (new_Sequencer new_AudioEngine))"
    by (simp add: new_Sequencer_def wf_empty_grid)
  show ?thesis
    using wf
      setPattern_row_by_row [OF wf, of "PatternArray []"
        "RowArray (replicate 16 True) # RowArray [True] # replicate 6 (RowArray (replicate 16 False))"
        0]
      setPattern_row_by_row [OF wf, of "PatternArray []"
        "RowArray (replicate 16 True) # RowArray [True] # replicate 6 (RowArray (replicate 16 False))"
        1]
    by (simp add: short_row_pattern_def accepted_row_def numSteps_def)
qed

subsection \<open>C4: the order of the triggers within a step\<close>

text \<open>
  C4, as stated, fails. \<^verbatim>\<open>onStep\<close> walks the index entry in the order the array has, and
  \<^verbatim>\<open>updateActiveStepCache\<close> pushes a newly activated row at the end of it. After
  \<^verbatim>\<open>setStep(2, 0, true)\<close> and then \<^verbatim>\<open>setStep(0, 0, true)\<close> on a new sequencer, the first
  \<^verbatim>\<open>onStep\<close> triggers row 2 before row 0.
\<close>

theorem triggers_not_ascending_counterexample:
  "getStep 0 0 (run rows_2_then_0 (new_Sequencer new_AudioEngine))
   \<and> getStep 2 0 (run rows_2_then_0 (new_Sequencer new_AudioEngine))
   \<and> triggered_rows
        (emitted (run rows_2_then_0 (new_Sequencer new_AudioEngine))
           (onStep 0 (run rows_2_then_0 (new_Sequencer new_AudioEngine)))) = [2, 0]
   \<and> \<not> sorted (triggered_rows
        (emitted (run rows_2_then_0 (new_Sequencer new_AudioEngine))
           (onStep 0 (run rows_2_then_0 (new_Sequencer new_AudioEngine)))))"
  by (simp add: triggered_rows_onStep smod_int_alt_def)
     (simp add: run_def rows_2_then_0_def seq_defs)

text \<open>
  C4, amended. In every state the sequencer can reach, \<^verbatim>\<open>onStep\<close> invokes the instrument
  trigger once for each row that is active at the new step, with the due time it was given,
  in the order in which the rows stand in the Active-Step Index entry of that step, and then
  emits the step event. That order is ascending in the row index when the entry was built
  by \<^verbatim>\<open>setPattern\<close>'s rebuild; a cell activated afterwards by \<^verbatim>\<open>setStep\<close> or \<^verbatim>\<open>toggleStep\<close>
  puts its row at the end of the entry, so the order then follows the order of activation.
\<close>

theorem triggers_in_index_order:
  fixes cs ae t rows now row
  defines "s \<equiv> run cs (new_Sequencer ae)"
  defines "k \<equiv> (currentStep s + 1) smod numSteps"
  shows "triggered_rows (emitted s (onStep t s)) = index_rows s k
       \<and> emitted s (onStep t s) = map (\<lambda>r. ScheduleNote r t) (index_rows s k) @ [StepEvent k]
       \<and> distinct (index_rows s k)
       \<and> (\<forall>r. r \<in> set (index_rows s k) \<longleftrightarrow> getStep r k s)
       \<and> (length rows = 8 \<longrightarrow> sorted (index_rows (setPattern (PatternArray rows) s) k))
       \<and> (in_bounds row k \<and> \<not> getStep row k s \<longrightarrow>
            index_rows (setStep row k True s) k = index_rows s k @ [row]
          \<and> index_rows (snd (toggleStep row k now s)) k = index_rows s k @ [row])"
proof -
  have inv: "invar s" unfolding s_def by (rule invar_reachable)
  then have "distinct (index_rows s k)" "\<forall>r. r \<in> set (index_rows s k) \<longleftrightarrow> getStep r k s"
    by (simp_all add: invar_def index_consistent_def)
  then show ?thesis
    using index_rows_activate[OF inv, of row k now]
    by (simp add: emitted_onStep triggered_rows_append k_def sorted_index_setPattern)
qed

theorem triggers_in_index_order_witness:
  "emitted (run rows_2_then_0 (new_Sequencer new_AudioEngine))
      (onStep 0 (run rows_2_then_0 (new_Sequencer new_AudioEngine)))
     = [ScheduleNote 2 0, ScheduleNote 0 0, StepEvent 0]
   \<and> length first_step_pattern = 8
   \<and> sorted (index_rows (setPattern (PatternArray first_step_pattern)
                 (run rows_2_then_0 (new_Sequencer new_AudioEngine))) 0)
   \<and> in_bounds 5 0
   \<and> \<not> getStep 5 0 (run rows_2_then_0 (new_Sequencer new_AudioEngine))
   \<and> index_rows (setStep 5 0 True (run rows_2_then_0 (new_Sequencer new_AudioEngine))) 0
       = [2, 0, 5]"
proof -
  have k: "(currentStep (run rows_2_then_0 (new_Sequencer new_AudioEngine)) + 1) smod numSteps = 0"
    by (simp add: run_def rows_2_then_0_def smod_int_alt_def seq_defs)
  have i: "index_rows (run rows_2_then_0 (new_Sequencer new_AudioEngine)) 0 = [2, 0]"
    by (simp add: run_def rows_2_then_0_def seq_defs)
  have g: "\<not> getStep 5 0 (run rows_2_then_0 (new_Sequencer new_AudioEngine))"
    by (simp add: run_def rows_2_then_0_def seq_defs)
  have l: "length first_step_pattern = 8" "in_bounds 5 0"
    by (simp_all add: first_step_pattern_def in_bounds_def numRows_def numSteps_def)
  show ?thesis
    using triggers_in_index_order [of rows_2_then_0 new_AudioEngine 0 first_step_pattern 5 1]
    unfolding k i using g l by simp
qed

subsection \<open>C5: \<^verbatim>\<open>start\<close> before the audio engine is initialised\<close>

text \<open>
  C5, as stated, fails. \<^verbatim>\<open>Sequencer.start\<close> calls \<^verbatim>\<open>audioEngine.start()\<close>, which returns at
  once when the engine is not initialised, and then sets its own \<open>isPlaying\<close> to true
  whatever the engine did. On a new sequencer with a new engine, \<open>isPlaying\<close> is true after
  \<^verbatim>\<open>start()\<close>.
\<close>

theorem start_before_init_counterexample:
  "\<not> initialized (audioEngine (new_Sequencer new_AudioEngine))
   \<and> \<not> isPlaying (new_Sequencer new_AudioEngine)
   \<and> currentStep (new_Sequencer new_AudioEngine) = - 1
   \<and> isPlaying (start (new_Sequencer new_AudioEngine))"
  by (simp add: start_def new_Sequencer_def new_AudioEngine_def)

text \<open>
  C5, amended. If \<^verbatim>\<open>start()\<close> is called before the audio engine is initialised, the call
  completes without a crash and without a result that reports a failure (the method returns
  nothing), and the audio engine ignores it: the engine, with its transport and its own
  \<open>isPlaying\<close> flag, is as before, \<open>currentStep\<close> is as before (\<open>-1\<close> when stopped), the grid
  and the index are untouched and no event is emitted.
\<close>

theorem start_before_init:
  assumes "\<not> initialized (audioEngine s)"
  shows "audioEngine (start s) = audioEngine s
       \<and> transport_started (audioEngine (start s)) = transport_started (audioEngine s)
       \<and> ae_isPlaying (audioEngine (start s)) = ae_isPlaying (audioEngine s)
       \<and> currentStep (start s) = currentStep s
       \<and> grid (start s) = grid s
       \<and> activeStepsCache (start s) = activeStepsCache s
       \<and> trace (start s) = trace s"
  using assms by (simp add: start_def AudioEngine_start_def)

theorem start_before_init_witness:
  "\<not> initialized (audioEngine (new_Sequencer new_AudioEngine))
   \<and> \<not> transport_started (audioEngine (start (new_Sequencer new_AudioEngine)))
   \<and> \<not> ae_isPlaying (audioEngine (start (new_Sequencer new_AudioEngine)))
   \<and> currentStep (start (new_Sequencer new_AudioEngine)) = - 1
   \<and> trace (start (new_Sequencer new_AudioEngine)) = []"
proof -
  have n: "\<not> initialized (audioEngine (new_Sequencer new_AudioEngine))"
    by (simp add: new_Sequencer_def new_AudioEngine_def)
  from start_before_init [OF n] n show ?thesis
    by (simp add: new_Sequencer_def new_AudioEngine_def)
qed

subsection \<open>C6: \<^verbatim>\<open>setTempo\<close> with an invalid value\<close>

text \<open>
  C6, as stated, fails. Neither \<^verbatim>\<open>Sequencer.setTempo\<close> nor \<^verbatim>\<open>AudioEngine.setTempo\<close> looks at
  the value: on an initialised engine, \<open>-5\<close> and \<open>NaN\<close> replace the tempo of 120.
\<close>

theorem setTempo_invalid_counterexample:
  "\<not> positive_finite (Num (- 5))
   \<and> tempo (audioEngine ready_Sequencer) = Num 120
   \<and> tempo (audioEngine (setTempo (Num (- 5)) ready_Sequencer)) = Num (- 5)
   \<and> \<not> positive_finite NaN
   \<and> tempo (audioEngine (setTempo NaN ready_Sequencer)) = NaN"
  by (simp add: positive_finite_def ready_Sequencer_def init_def updateActiveStepsCache_def
      setTempo_def AudioEngine_setTempo_def AudioEngine_init_def new_Sequencer_def
      new_AudioEngine_def)

text \<open>
  C6, amended. \<^verbatim>\<open>setTempo\<close> does not validate its argument and signals nothing. When the
  audio engine is initialised, every value, non-positive and non-finite ones included,
  becomes the tempo; when it is not, the call is ignored and the previous tempo is retained,
  for every value. Nothing else of the sequencer changes.
\<close>

theorem setTempo_unvalidated:
  "tempo (audioEngine (setTempo bpm s))
      = (if initialized (audioEngine s) then bpm else tempo (audioEngine s))
   \<and> initialized (audioEngine (setTempo bpm s)) = initialized (audioEngine s)
   \<and> currentStep (setTempo bpm s) = currentStep s
   \<and> isPlaying (setTempo bpm s) = isPlaying s
   \<and> grid (setTempo bpm s) = grid s
   \<and> activeStepsCache (setTempo bpm s) = activeStepsCache s
   \<and> trace (setTempo bpm s) = trace s"
  by (simp add: setTempo_def AudioEngine_setTempo_def)

theorem setTempo_unvalidated_witness:
  "tempo (audioEngine (setTempo PosInfinity ready_Sequencer)) = PosInfinity
   \<and> tempo (audioEngine (setTempo (Num 0) (new_Sequencer new_AudioEngine))) = Num 120"
proof -
  have i: "initialized (audioEngine ready_Sequencer)"
    "\<not> initialized (audioEngine (new_Sequencer new_AudioEngine))"
    "tempo (audioEngine (new_Sequencer new_AudioEngine)) = Num 120"
    by (simp_all add: ready_Sequencer_def init_def updateActiveStepsCache_def
        AudioEngine_init_def new_Sequencer_def new_AudioEngine_def)
  from setTempo_unvalidated [of PosInfinity ready_Sequencer]
       setTempo_unvalidated [of "Num 0" "new_Sequencer new_AudioEngine"] i
  show ?thesis by simp
qed

subsection \<open>C7: the immediate trigger of \<^verbatim>\<open>toggleStep\<close>\<close>

text \<open>
  C7. In every state the sequencer can reach, \<^verbatim>\<open>toggleStep(row, step)\<close> invokes the
  instrument trigger of \<open>row\<close> at once, with the time \<^verbatim>\<open>Tone.now()\<close>, exactly when the
  sequencer is playing, \<open>step\<close> is the step currently played and the cell becomes active;
  toggling a cell off, toggling at another step, or toggling while stopped triggers nothing.
  The activated row also fires on the later loop passes: the sixteenth \<^verbatim>\<open>onStep\<close> after
  the toggle, and every sixteenth from there, is at \<open>step\<close> again and triggers \<open>row\<close> with
  its due time.
\<close>

theorem toggleStep_immediate_trigger:
  fixes cs ae row step now ts t
  defines "s \<equiv> run cs (new_Sequencer ae)"
  defines "s1 \<equiv> snd (toggleStep row step now s)"
  shows "emitted s s1 =
           (if in_bounds row step \<and> isPlaying s \<and> currentStep s = step \<and> \<not> getStep row step s
            then [ScheduleNote row now] else [])
       \<and> (in_bounds row step \<and> currentStep s = step \<and> \<not> getStep row step s
            \<and> length ts mod 16 = 15
            \<longrightarrow> currentStep (onStep t (onSteps ts s1)) = step
              \<and> ScheduleNote row t \<in> set (emitted (onSteps ts s1) (onStep t (onSteps ts s1))))"
proof -
  have inv: "invar s" unfolding s_def by (rule invar_reachable)
  then have wf: "wf_grid (grid s)" by (simp add: invar_def)
  have inv1: "invar s1" unfolding s1_def using inv by (rule invar_toggleStep)
  have 1: "emitted s s1 =
           (if in_bounds row step \<and> isPlaying s \<and> currentStep s = step \<and> \<not> getStep row step s
            then [ScheduleNote row now] else [])"
    unfolding s1_def by (rule emitted_toggleStep[OF wf])
  have 2: "currentStep (onStep t (onSteps ts s1)) = step
         \<and> ScheduleNote row t \<in> set (emitted (onSteps ts s1) (onStep t (onSteps ts s1)))"
    if h: "in_bounds row step" "currentStep s = step" "\<not> getStep row step s"
      "length ts mod 16 = 15"
  proof -
    have "getStep row step s1" "currentStep s1 = step"
      unfolding s1_def using h wf by (simp_all add: toggleStep_result toggleStep_currentStep)
    then show ?thesis
      by (rule later_pass_fires[OF inv1 h(1) _ _ h(4)])
  qed
  from 1 2 show ?thesis by blast
qed

theorem toggleStep_immediate_trigger_witness:
  "in_bounds 2 7
   \<and> isPlaying (run playing_at_step_7 (new_Sequencer new_AudioEngine))
   \<and> currentStep (run playing_at_step_7 (new_Sequencer new_AudioEngine)) = 7
   \<and> \<not> getStep 2 7 (run playing_at_step_7 (new_Sequencer new_AudioEngine))
   \<and> emitted (run playing_at_step_7 (new_Sequencer new_AudioEngine))
        (snd (toggleStep 2 7 (15 / 2) (run playing_at_step_7 (new_Sequencer new_AudioEngine))))
       = [ScheduleNote 2 (15 / 2)]
   \<and> ScheduleNote 2 23 \<in> set
        (emitted
           (onSteps [8, 9, 10, 11, 12, 13, 14, 15, 16, 17, 18, 19, 20, 21, 22]
              (snd (toggleStep 2 7 (15 / 2) (run playing_at_step_7 (new_Sequencer new_AudioEngine)))))
           (onStep 23
              (onSteps [8, 9, 10, 11, 12, 13, 14, 15, 16, 17, 18, 19, 20, 21, 22]
                 (snd (toggleStep 2 7 (15 / 2)
                    (run playing_at_step_7 (new_Sequencer new_AudioEngine)))))))"
proof -
  have h: "in_bounds 2 7"
    "isPlaying (run playing_at_step_7 (new_Sequencer new_AudioEngine))"
    "currentStep (run playing_at_step_7 (new_Sequencer new_AudioEngine)) = 7"
    "\<not> getStep 2 7 (run playing_at_step_7 (new_Sequencer new_AudioEngine))"
    by (simp_all add: run_def playing_at_step_7_def init_def start_def onStep_def
        dispatchStepEvent_def smod_int_alt_def pattern_defs seq_defs)
  from toggleStep_immediate_trigger
         [where cs = playing_at_step_7 and ae = new_AudioEngine and row = 2 and step = 7
            and now = "15 / 2" and t = 23
            and ts = "[8, 9, 10, 11, 12, 13, 14, 15, 16, 17, 18, 19, 20, 21, 22]"] h
  show ?thesis by simp
qed

subsection \<open>C8: row or step out of bounds\<close>

text \<open>
  C8. For a row outside 0..7 or a step outside 0..15, \<^verbatim>\<open>toggleStep\<close> returns false and
  leaves the sequencer as it was, \<^verbatim>\<open>setStep\<close> leaves the sequencer as it was, and
  \<^verbatim>\<open>getStep\<close> returns false; so the grid and the Active-Step Index are unchanged. The three
  methods return at their bounds check without reading the grid, so nothing can be thrown.
\<close>

theorem out_of_range_is_noop:
  assumes "row < 0 \<or> 7 < row \<or> step < 0 \<or> 15 < step"
  shows "toggleStep row step now s = (False, s)
       \<and> setStep row step state s = s
       \<and> getStep row step s = False
       \<and> grid (snd (toggleStep row step now s)) = grid s
       \<and> activeStepsCache (snd (toggleStep row step now s)) = activeStepsCache s
       \<and> grid (setStep row step state s) = grid s
       \<and> activeStepsCache (setStep row step state s) = activeStepsCache s"
proof -
  have "\<not> in_bounds row step"
    using assms by (auto simp: in_bounds_def numRows_def numSteps_def)
  then show ?thesis
    by (simp add: toggleStep_def setStep_def getStep_def)
qed

theorem out_of_range_is_noop_witness:
  "toggleStep 8 0 1 (run rows_0_then_1 (new_Sequencer new_AudioEngine))
      = (False, run rows_0_then_1 (new_Sequencer new_AudioEngine))
   \<and> setStep 0 16 True (run rows_0_then_1 (new_Sequencer new_AudioEngine))
      = run rows_0_then_1 (new_Sequencer new_AudioEngine)
   \<and> getStep (- 1) 0 (run rows_0_then_1 (new_Sequencer new_AudioEngine)) = False"
  using
    out_of_range_is_noop [where row = 8 and step = 0 and now = 1
      and s = "run rows_0_then_1 (new_Sequencer new_AudioEngine)"]
    out_of_range_is_noop [where row = 0 and step = 16 and state = True
      and s = "run rows_0_then_1 (new_Sequencer new_AudioEngine)"]
    out_of_range_is_noop [where row = "- 1" and step = 0
      and s = "run rows_0_then_1 (new_Sequencer new_AudioEngine)"]
  by simp

subsection \<open>C9: toggling twice\<close>

text \<open>
  C9, as stated, fails for the index. Toggling an active cell off removes its row from the
  entry of the step, and toggling it on again pushes the row at the end: with rows 0 and 1
  active at step 0 and stored as \<open>[0, 1]\<close>, toggling (0, 0) twice leaves \<open>[1, 0]\<close>, which is
  the order in which \<^verbatim>\<open>onStep\<close> then triggers them.
\<close>

theorem toggleStep_twice_order_counterexample:
  "in_bounds 0 0
   \<and> activeStepsCache (run rows_0_then_1 (new_Sequencer new_AudioEngine)) 0 = Some [0, 1]
   \<and> activeStepsCache
        (snd (toggleStep 0 0 1
           (snd (toggleStep 0 0 1 (run rows_0_then_1 (new_Sequencer new_AudioEngine)))))) 0
       = Some [1, 0]"
  by (simp add: run_def rows_0_then_1_def seq_defs)

text \<open>
  C9, amended. For every in-range (row, step) and every state the sequencer can reach,
  calling \<^verbatim>\<open>toggleStep(row, step)\<close> twice returns the grid to its original state; the first
  call returns the negation of the original cell value and the second the original value.
  After each call the index agrees with the grid, and after the second it holds the same
  rows at every step as at the start. If the cell was inactive at the start the index is
  restored exactly; if it was active, the entry of \<open>step\<close> holds the same rows with \<open>row\<close>
  moved to the end, and the entries of the other steps are as they were.
\<close>

theorem toggleStep_twice:
  fixes cs ae row step now now'
  defines "s \<equiv> run cs (new_Sequencer ae)"
  defines "s1 \<equiv> snd (toggleStep row step now s)"
  defines "s2 \<equiv> snd (toggleStep row step now' s1)"
  assumes ib: "in_bounds row step"
  shows "fst (toggleStep row step now s) = (\<not> getStep row step s)
       \<and> fst (toggleStep row step now' s1) = getStep row step s
       \<and> grid s2 = grid s
       \<and> (\<forall>k. set (index_rows s2 k) = set (index_rows s k))
       \<and> (\<forall>r k. r \<in> set (index_rows s1 k) \<longleftrightarrow> getStep r k s1)
       \<and> (\<forall>r k. r \<in> set (index_rows s2 k) \<longleftrightarrow> getStep r k s2)
       \<and> (\<not> getStep row step s \<longrightarrow> activeStepsCache s2 = activeStepsCache s)
       \<and> (getStep row step s \<longrightarrow>
            index_rows s2 step = filter (\<lambda>r. r \<noteq> row) (index_rows s step) @ [row])
       \<and> (\<forall>k. k \<noteq> step \<longrightarrow> index_rows s2 k = index_rows s k)"
proof -
  have inv: "invar s" unfolding s_def by (rule invar_reachable)
  then have wf: "wf_grid (grid s)" by (simp add: invar_def)
  have inv1: "invar s1" unfolding s1_def using inv by (rule invar_toggleStep)
  then have wf1: "wf_grid (grid s1)" by (simp add: invar_def)
  have inv2: "invar s2" unfolding s2_def using inv1 by (rule invar_toggleStep)
  have g1: "getStep row step s1 = (\<not> getStep row step s)"
    unfolding s1_def by (rule toggleStep_result(3)[OF wf ib])
  have r1: "fst (toggleStep row step now s) = (\<not> getStep row step s)"
    by (rule toggleStep_result(1)[OF wf ib])
  have r2: "fst (toggleStep row step now' s1) = getStep row step s"
    using toggleStep_result(1)[OF wf1 ib, of now'] g1 by simp
  have g: "grid s2 = grid s"
    unfolding s2_def s1_def by (rule toggleStep_twice_grid[OF wf ib])
  have ix: "index_rows s2 k =
           (if k = step \<and> getStep row step s
            then filter (\<lambda>r. r \<noteq> row) (index_rows s step) @ [row]
            else index_rows s k)" for k
    unfolding s2_def s1_def by (rule index_rows_toggleStep_twice[OF inv ib])
  have m: "r \<in> set (index_rows s k) \<longleftrightarrow> getStep r k s" for r k
    using inv by (simp add: invar_def index_consistent_def)
  have m1: "r \<in> set (index_rows s1 k) \<longleftrightarrow> getStep r k s1" for r k
    using inv1 by (simp add: invar_def index_consistent_def)
  have m2: "r \<in> set (index_rows s2 k) \<longleftrightarrow> getStep r k s2" for r k
    using inv2 by (simp add: invar_def index_consistent_def)
  have sets: "set (index_rows s2 k) = set (index_rows s k)" for k
    unfolding ix using m[of row step] by auto
  have exact: "activeStepsCache s2 = activeStepsCache s" if "\<not> getStep row step s"
    by (rule cache_eqI[OF inv inv2]) (simp add: ix that)
  show ?thesis
    using r1 r2 g sets m1 m2 exact ix by simp
qed

theorem toggleStep_twice_witness:
  "in_bounds 0 0
   \<and> getStep 0 0 (run rows_0_then_1 (new_Sequencer new_AudioEngine))
   \<and> fst (toggleStep 0 0 1 (run rows_0_then_1 (new_Sequencer new_AudioEngine))) = False
   \<and> fst (toggleStep 0 0 2
        (snd (toggleStep 0 0 1 (run rows_0_then_1 (new_Sequencer new_AudioEngine))))) = True
   \<and> grid (snd (toggleStep 0 0 2
        (snd (toggleStep 0 0 1 (run rows_0_then_1 (new_Sequencer new_AudioEngine))))))
       = grid (run rows_0_then_1 (new_Sequencer new_AudioEngine))
   \<and> index_rows (snd (toggleStep 0 0 2
        (snd (toggleStep 0 0 1 (run rows_0_then_1 (new_Sequencer new_AudioEngine)))))) 0
       = [1, 0]"
proof -
  have h: "in_bounds 0 0" "getStep 0 0 (run rows_0_then_1 (new_Sequencer new_AudioEngine))"
    "index_rows (run rows_0_then_1 (new_Sequencer new_AudioEngine)) 0 = [0, 1]"
    by (simp_all add: run_def rows_0_then_1_def seq_defs)
  from toggleStep_twice [where cs = rows_0_then_1 and ae = new_AudioEngine and now = 1
         and now' = 2, OF h(1)] h
  show ?thesis by simp
qed

subsection \<open>C10: a pattern with the wrong number of rows\<close>

text \<open>
  C10. If the argument of \<^verbatim>\<open>setPattern\<close> is not an array, or is an array whose length is not
  8, the sequencer is left as it was: the grid and the Active-Step Index are unchanged.
\<close>

theorem setPattern_wrong_row_count:
  assumes "\<forall>rows. pattern = PatternArray rows \<longrightarrow> length rows \<noteq> 8"
  shows "setPattern pattern s = s
       \<and> grid (setPattern pattern s) = grid s
       \<and> activeStepsCache (setPattern pattern s) = activeStepsCache s"
  using assms by (cases pattern) (simp_all add: setPattern_def numRows_def)

theorem setPattern_wrong_row_count_witness:
  "setPattern (PatternArray [RowArray (replicate 16 True)])
      (setStep 2 0 True (new_Sequencer new_AudioEngine))
     = setStep 2 0 True (new_Sequencer new_AudioEngine)
   \<and> setPattern PatternNotArray (new_Sequencer new_AudioEngine) = new_Sequencer new_AudioEngine"
  using setPattern_wrong_row_count
          [of "PatternArray [RowArray (replicate 16 True)]"
              "setStep 2 0 True (new_Sequencer new_AudioEngine)"]
        setPattern_wrong_row_count [of PatternNotArray "new_Sequencer new_AudioEngine"]
  by simp

end
